theory Spec2Isabelle
  imports Complex_Main "HOL-Library.Sublist" "HOL-Library.Product_Lexorder"
begin

section \<open>Python strings, slices and errors\<close>

text \<open>
  A Python \<open>str\<close> is modelled as a \<open>string\<close> whose characters are the code points
  below 256, so that \<open>length\<close> counts what Python's \<open>len\<close> counts. Of these,
  \<open>str.isspace\<close> holds for 9-13, 28-32, 133 and 160.
\<close>

definition isspace :: "char \<Rightarrow> bool" where
  "isspace c = ((of_char c :: nat) \<in> {9, 10, 11, 12, 13, 28, 29, 30, 31, 32, 133, 160})"

text \<open>
  Two computations of the interpreter are parameters of the model. \<open>str.lower\<close> is not a
  map of single characters (the lower case of a letter can depend on its neighbours, and
  can be longer than the letter), so it is taken as any function on strings.
  \<open>float_age_hours now ts\<close> is the double that \<open>(now - ts) / 3600\<close> evaluates to in
  floating-point arithmetic; the comparisons of that double with 24 and 168 are exact.
\<close>

record builtins =
  str_lower :: "string \<Rightarrow> string"
  float_age_hours :: "real \<Rightarrow> real \<Rightarrow> real"

text \<open>\<open>s.rstrip()\<close>: trailing whitespace removed.\<close>

definition str_rstrip :: "string \<Rightarrow> string" where
  "str_rstrip s = rev (dropWhile isspace (rev s))"

text \<open>
  \<open>s.split()\<close>: the maximal runs of non-whitespace characters, left to right.
  \<open>split_from w s\<close> scans \<open>s\<close> with \<open>w\<close> the word collected so far.
\<close>

fun split_from :: "string \<Rightarrow> string \<Rightarrow> string list" where
  "split_from w [] = (if w = [] then [] else [w])"
| "split_from w (c # cs) =
     (if isspace c
      then (if w = [] then split_from [] cs else w # split_from [] cs)
      else split_from (w @ [c]) cs)"

definition str_split :: "string \<Rightarrow> string list" where
  "str_split s = split_from [] s"

text \<open>\<open>needle in hay\<close> on strings is the contiguous-substring test.\<close>

definition str_in :: "string \<Rightarrow> string \<Rightarrow> bool" where
  "str_in needle hay = sublist needle hay"

text \<open>\<open>xs[:k]\<close>: a negative \<open>k\<close> counts from the end.\<close>

definition slice_to :: "'a list \<Rightarrow> int \<Rightarrow> 'a list" where
  "slice_to xs k =
     (if 0 \<le> k then take (nat k) xs else take (length xs - nat (- k)) xs)"

datatype py_error = ZeroDivisionError

section \<open>Data model\<close>

text \<open>
  A memory item is the dict built by \<open>MemoryStore.add\<close>; the key \<open>id\<close> is the field
  \<open>ident\<close>. Priorities and categories are free strings, as in the source.
  Timestamps are \<open>time.time()\<close> readings, taken as real numbers.
\<close>

record item =
  ident :: string
  category :: string
  subcategory :: "string option"
  content :: string
  priority :: string
  tokens :: int
  timestamp :: real
  compressed :: bool

section \<open>TokenCounter\<close>

text \<open>
  The encoder is tiktoken's, a library outside the repository: it is a parameter,
  the object \<open>get_encoder(model)\<close> returns, with its two methods.
\<close>

record encoder =
  encode :: "string \<Rightarrow> nat list"
  decode :: "nat list \<Rightarrow> string"

definition count :: "encoder \<Rightarrow> string \<Rightarrow> int" where
  "count enc text = (if text = [] then 0 else int (length (encode enc text)))"

definition truncate_to_tokens :: "encoder \<Rightarrow> string \<Rightarrow> int \<Rightarrow> string" where
  "truncate_to_tokens enc text max_tokens =
     (let toks = encode enc text
      in if int (length toks) \<le> max_tokens then text
         else decode enc (slice_to toks max_tokens))"

section \<open>CompressionStrategy\<close>

definition summarize_single :: "encoder \<Rightarrow> item \<Rightarrow> int \<Rightarrow> item option" where
  "summarize_single enc it max_tokens =
     (let truncated = truncate_to_tokens enc (content it) (max_tokens - 10);
          truncated = (if truncated \<noteq> content it then str_rstrip truncated @ ''...''
                       else truncated)
      in Some (it\<lparr>content := truncated, tokens := count enc truncated, compressed := True\<rparr>))"

text \<open>The loop of \<open>_summarize_items\<close>, the per-item budget already computed.\<close>

fun summarize_loop :: "encoder \<Rightarrow> int \<Rightarrow> item list \<Rightarrow> item list" where
  "summarize_loop enc budget_per_item [] = []"
| "summarize_loop enc budget_per_item (it # rest) =
     (if tokens it \<le> budget_per_item then it # summarize_loop enc budget_per_item rest
      else (case summarize_single enc it budget_per_item of
              Some summarized \<Rightarrow> summarized # summarize_loop enc budget_per_item rest
            | None \<Rightarrow> summarize_loop enc budget_per_item rest))"

text \<open>\<open>target_tokens // len(items)\<close> raises on an empty list.\<close>

definition summarize_items :: "encoder \<Rightarrow> item list \<Rightarrow> int \<Rightarrow> py_error + item list" where
  "summarize_items enc items target_tokens =
     (if length items = 0 then Inl ZeroDivisionError
      else Inr (summarize_loop enc (max 50 (target_tokens div int (length items))) items))"

definition is_protected :: "string list \<Rightarrow> item \<Rightarrow> bool" where
  "is_protected preserve_categories it =
     (priority it = ''critical'' \<or> category it \<in> set preserve_categories)"

text \<open>\<open>priority_order.get(x['priority'], 2)\<close> and the sort key of the compressible items.\<close>

definition priority_order :: "string \<Rightarrow> nat" where
  "priority_order p = (if p = ''normal'' then 0 else if p = ''low'' then 1 else 2)"

definition compress_key :: "item \<Rightarrow> nat \<times> real" where
  "compress_key x = (priority_order (priority x), - timestamp x)"

text \<open>
  The greedy loop over the sorted compressible items. The state is
  \<open>(result, current_tokens, remaining_budget)\<close>; \<open>remaining_budget\<close> is assigned
  only where the source assigns it, after a summarized item is appended.
\<close>

fun compress_loop ::
  "encoder \<Rightarrow> int \<Rightarrow> item list \<Rightarrow> item list \<times> int \<times> int \<Rightarrow> item list" where
  "compress_loop enc target_tokens [] (result, current_tokens, remaining_budget) = result"
| "compress_loop enc target_tokens (it # rest) (result, current_tokens, remaining_budget) =
     (if current_tokens + tokens it \<le> target_tokens
      then compress_loop enc target_tokens rest
             (result @ [it], current_tokens + tokens it, remaining_budget)
      else if remaining_budget > 100
      then (case summarize_single enc it (remaining_budget div 2) of
              Some summarized \<Rightarrow>
                compress_loop enc target_tokens rest
                  (result @ [summarized], current_tokens + tokens summarized,
                   target_tokens - (current_tokens + tokens summarized))
            | None \<Rightarrow>
                compress_loop enc target_tokens rest (result, current_tokens, remaining_budget))
      else compress_loop enc target_tokens rest (result, current_tokens, remaining_budget))"

text \<open>
  \<open>preserve_categories or [...]\<close>: \<open>None\<close> and the empty list are both falsy.
  \<open>list.sort\<close> is a stable sort, as \<open>sort_key\<close> is.
\<close>

definition default_preserve :: "string list" where
  "default_preserve = [''critical'', ''error'', ''arch'']"

definition preserve_or_default :: "string list option \<Rightarrow> string list" where
  "preserve_or_default pc =
     (case pc of None \<Rightarrow> default_preserve
      | Some cs \<Rightarrow> (if cs = [] then default_preserve else cs))"

definition smart_compress ::
  "encoder \<Rightarrow> item list \<Rightarrow> int \<Rightarrow> string list option \<Rightarrow> py_error + item list" where
  "smart_compress enc items target_tokens preserve_categories =
     (let pc = preserve_or_default preserve_categories;
          protected = filter (is_protected pc) items;
          compressible = filter (\<lambda>it. \<not> is_protected pc it) items;
          protected_tokens = sum_list (map tokens protected)
      in if protected_tokens \<ge> target_tokens
         then summarize_items enc protected target_tokens
         else Inr (compress_loop enc target_tokens (sort_key compress_key compressible)
                     (protected, protected_tokens, target_tokens - protected_tokens)))"

section \<open>MemoryStore\<close>

record aggregate =
  cat_count :: int
  cat_tokens :: int

text \<open>The snapshot's two mutable parts: the item list and the per-category aggregates.\<close>

record store =
  memories :: "item list"
  categories :: "string \<rightharpoonup> aggregate"

definition empty_store :: store where
  "empty_store = \<lparr>memories = [], categories = Map.empty\<rparr>"

text \<open>\<open>category.split(":", 1)\<close> when the string holds a colon.\<close>

definition split_category :: "string \<Rightarrow> string \<times> string option" where
  "split_category c =
     (if CHR '':'' \<in> set c
      then (takeWhile (\<lambda>x. x \<noteq> CHR '':'') c, Some (tl (dropWhile (\<lambda>x. x \<noteq> CHR '':'') c)))
      else (c, None))"

text \<open>
  \<open>add\<close>: the id (a hash of the content and the clock) and the timestamp come from
  outside and are arguments \<open>new_id\<close> and \<open>now\<close>. \<open>new_item\<close> is the dict literal.
  The aggregate is created at zero when the category is new, then incremented.
\<close>

definition new_item ::
  "encoder \<Rightarrow> string \<Rightarrow> real \<Rightarrow> string \<Rightarrow> string option \<Rightarrow> string \<Rightarrow> string \<Rightarrow> item" where
  "new_item enc new_id now cat subcat text prio =
     \<lparr>ident = new_id, category = cat, subcategory = subcat, content = text,
      priority = prio, tokens = count enc text, timestamp = now, compressed = False\<rparr>"

definition add ::
  "encoder \<Rightarrow> string \<Rightarrow> real \<Rightarrow> store \<Rightarrow> string \<Rightarrow> string \<Rightarrow> string \<Rightarrow> item \<times> store" where
  "add enc new_id now s cat text prio =
     (let (cat', subcat) = split_category cat;
          it = new_item enc new_id now cat' subcat text prio;
          a = (case categories s cat' of
                 None \<Rightarrow> \<lparr>cat_count = 0, cat_tokens = 0\<rparr>
               | Some a \<Rightarrow> a)
      in (it, s\<lparr>memories := memories s @ [it],
                categories := (categories s)(cat' \<mapsto>
                  a\<lparr>cat_count := cat_count a + 1, cat_tokens := cat_tokens a + tokens it\<rparr>)\<rparr>))"

text \<open>The index of the first item that \<open>remove\<close>'s loop accepts, counting from \<open>i\<close>.\<close>

fun first_match :: "string \<Rightarrow> item list \<Rightarrow> nat \<Rightarrow> nat option" where
  "first_match item_id [] i = None"
| "first_match item_id (it # rest) i =
     (if ident it = item_id \<or> str_in item_id (content it) then Some i
      else first_match item_id rest (Suc i))"

definition remove :: "store \<Rightarrow> string \<Rightarrow> item option \<times> store" where
  "remove s item_id =
     (case first_match item_id (memories s) 0 of
        None \<Rightarrow> (None, s)
      | Some i \<Rightarrow>
          (let removed = memories s ! i;
               cat = category removed
           in (Some removed,
               s\<lparr>memories := take i (memories s) @ drop (Suc i) (memories s),
                 categories :=
                   (case categories s cat of
                      None \<Rightarrow> categories s
                    | Some a \<Rightarrow> (categories s)(cat \<mapsto>
                        a\<lparr>cat_count := cat_count a - 1,
                          cat_tokens := cat_tokens a - tokens removed\<rparr>))\<rparr>)))"

subsection \<open>get_relevant\<close>

text \<open>
  The score of one item; \<open>now\<close> is the reading of \<open>time.time()\<close> taken in that
  iteration of the loop.
\<close>

definition score :: "builtins \<Rightarrow> real \<Rightarrow> string \<Rightarrow> item \<Rightarrow> int" where
  "score bi now query it =
     (let query_lower = str_lower bi query;
          query_words = set (str_split query_lower);
          content_lower = str_lower bi (content it);
          category_lower = str_lower bi (category it);
          sc = (if str_in category_lower query_lower \<or> str_in query_lower category_lower
                then 10 else 0);
          content_words = set (str_split content_lower);
          overlap = int (card (query_words \<inter> content_words));
          sc = sc + overlap * 2;
          sc = (if str_in query_lower content_lower then sc + 5 else sc);
          sc = (if priority it = ''critical'' then sc + 5
                else if priority it = ''low'' then sc - 2 else sc);
          age_hours = float_age_hours bi now (timestamp it);
          sc = (if age_hours < 24 then sc + 3 else if age_hours < 168 then sc + 1 else sc)
      in sc)"

text \<open>
  The scoring loop from its \<open>i\<close>-th iteration on; \<open>clock i\<close> is the clock reading of
  iteration \<open>i\<close>. Only items with a positive score are collected.
\<close>

fun scored_from ::
  "builtins \<Rightarrow> (nat \<Rightarrow> real) \<Rightarrow> string \<Rightarrow> nat \<Rightarrow> item list \<Rightarrow> (int \<times> item) list" where
  "scored_from bi clock query i [] = []"
| "scored_from bi clock query i (it # rest) =
     (if score bi (clock i) query it > 0
      then (score bi (clock i) query it, it) # scored_from bi clock query (Suc i) rest
      else scored_from bi clock query (Suc i) rest)"

text \<open>\<open>scored\<close> after \<open>scored.sort(key=lambda x: -x[0])\<close>.\<close>

definition ranked ::
  "builtins \<Rightarrow> (nat \<Rightarrow> real) \<Rightarrow> store \<Rightarrow> string \<Rightarrow> (int \<times> item) list" where
  "ranked bi clock s query =
     sort_key (\<lambda>x. - fst x) (scored_from bi clock query 0 (memories s))"

definition get_relevant ::
  "builtins \<Rightarrow> (nat \<Rightarrow> real) \<Rightarrow> store \<Rightarrow> string \<Rightarrow> int \<Rightarrow> item list" where
  "get_relevant bi clock s query max_items =
     map snd (slice_to (ranked bi clock s query) max_items)"

section \<open>Auxiliary notions\<close>

text \<open>
  Sequences of store operations: a command is one call of \<open>add\<close> (with the id and
  the clock reading it gets) or of \<open>remove\<close>, and \<open>run\<close> applies a command list to
  the empty store that \<open>initialize\<close> creates.
\<close>

datatype command =
  Add string real string string string
| Remove string

fun exec :: "encoder \<Rightarrow> store \<Rightarrow> command \<Rightarrow> store" where
  "exec enc s (Add new_id now cat text prio) = snd (add enc new_id now s cat text prio)"
| "exec enc s (Remove item_id) = snd (remove s item_id)"

definition run :: "encoder \<Rightarrow> command list \<Rightarrow> store" where
  "run enc cmds = foldl (exec enc) empty_store cmds"

text \<open>The aggregate of a category recomputed from the item list.\<close>

definition aggregate_of :: "item list \<Rightarrow> string \<Rightarrow> aggregate" where
  "aggregate_of ms cat =
     \<lparr>cat_count = int (length (filter (\<lambda>m. category m = cat) ms)),
      cat_tokens = sum_list (map tokens (filter (\<lambda>m. category m = cat) ms))\<rparr>"

text \<open>
  The bookkeeping invariant of the store: a category with an aggregate has the recomputed
  one, and a category without an aggregate has no item.
\<close>

definition consistent :: "store \<Rightarrow> bool" where
  "consistent s = (\<forall>cat. case categories s cat of
       None \<Rightarrow> filter (\<lambda>m. category m = cat) (memories s) = []
     | Some a \<Rightarrow> a = aggregate_of (memories s) cat)"

text \<open>
  Every item of the list paired with its score, in storage order; \<open>clock i\<close> is the
  clock reading at the \<open>i\<close>-th item.
\<close>

fun all_scored_from ::
  "builtins \<Rightarrow> (nat \<Rightarrow> real) \<Rightarrow> string \<Rightarrow> nat \<Rightarrow> item list \<Rightarrow> (int \<times> item) list" where
  "all_scored_from bi clock query i [] = []"
| "all_scored_from bi clock query i (it # rest) =
     (score bi (clock i) query it, it) # all_scored_from bi clock query (Suc i) rest"

text \<open>
  An encoder to run examples with: one token per character, the token being the
  character's code (a byte-pair encoding without merges).
\<close>

definition byte_encoder :: encoder where
  "byte_encoder = \<lparr>encode = map of_char, decode = map char_of\<rparr>"



text \<open>
  Built-ins to run examples with. On strings of code points below 256 \<open>str.lower\<close> is
  the map of single characters that moves 65-90 and 192-222 (except 215) up by 32. The
  age is computed in exact arithmetic; the examples use readings far from 24 and 168
  hours, where the comparisons give what they give on doubles.
\<close>

definition lower_char :: "char \<Rightarrow> char" where
  "lower_char c =
     (let n = (of_char c :: nat)
      in if (65 \<le> n \<and> n \<le> 90) \<or> (192 \<le> n \<and> n \<le> 222 \<and> n \<noteq> 215)
         then char_of (n + 32) else c)"

definition latin1_builtins :: builtins where
  "latin1_builtins =
     \<lparr>str_lower = map lower_char, float_age_hours = (\<lambda>now ts. (now - ts) / 3600)\<rparr>"

section \<open>The byte encoder\<close>

lemma byte_count: "count byte_encoder s = int (length s)"
  by (simp add: count_def byte_encoder_def)

lemma byte_encode_length: "length (encode byte_encoder s) = length s"
  by (simp add: byte_encoder_def)

lemma byte_decode_take: "decode byte_encoder (take k (encode byte_encoder s)) = take k s"
  by (simp add: byte_encoder_def take_map[symmetric] comp_def)

section \<open>The compressor\<close>



text \<open>
  C1. The compression bound at a concrete input, under the byte encoder: two unprotected
  items of 100 and 60 tokens and a target of 101. The protected items sum to 0, the
  first item is kept whole, and the second is summarized against the budget computed
  before the first was appended; the result sums to 143 tokens.
\<close>

theorem compress_exceeds_target_with_stale_budget:
  "smart_compress byte_encoder
     [new_item byte_encoder ''a1'' 2 ''style'' None (replicate 100 CHR ''a'') ''normal'',
      new_item byte_encoder ''b2'' 1 ''style'' None (replicate 60 CHR ''b'') ''normal'']
     101 None
   = Inr [new_item byte_encoder ''a1'' 2 ''style'' None (replicate 100 CHR ''a'') ''normal'',
          (new_item byte_encoder ''b2'' 1 ''style'' None (replicate 60 CHR ''b'') ''normal'')
            \<lparr>content := replicate 40 CHR ''b'' @ ''...'', tokens := 43, compressed := True\<rparr>]
   \<and> sum_list (map tokens
         [new_item byte_encoder ''a1'' 2 ''style'' None (replicate 100 CHR ''a'') ''normal'',
          (new_item byte_encoder ''b2'' 1 ''style'' None (replicate 60 CHR ''b'') ''normal'')
            \<lparr>content := replicate 40 CHR ''b'' @ ''...'', tokens := 43, compressed := True\<rparr>])
       = 143"
  by (simp add: smart_compress_def preserve_or_default_def default_preserve_def is_protected_def
        new_item_def byte_count byte_encode_length byte_decode_take compress_key_def
        priority_order_def summarize_single_def truncate_to_tokens_def slice_to_def
        str_rstrip_def isspace_def Let_def)

text \<open>
  C2. On an empty item list with target 0 no item is protected, the protected sum 0
  reaches the target, and the per-item budget divides by the number of protected items:
  the call raises \<open>ZeroDivisionError\<close>.
\<close>

theorem smart_compress_raises_on_empty_protected:
  "smart_compress enc [] 0 pc = Inl ZeroDivisionError"
  by (simp add: smart_compress_def summarize_items_def)




lemma summarize_loop_pairs:
  "list_all2
     (\<lambda>x r. r = x \<or>
        (compressed r \<and> r = x\<lparr>content := content r, tokens := tokens r, compressed := True\<rparr>))
     xs (summarize_loop enc b xs)"
  by (induction xs) (auto simp: summarize_single_def Let_def)

lemma compress_loop_extends:
  "\<exists>rest. compress_loop enc t xs (res, cur, rem) = res @ rest \<and>
     (\<forall>y\<in>set rest. \<exists>x\<in>set xs. y = x \<or>
        (compressed y \<and> y = x\<lparr>content := content y, tokens := tokens y, compressed := True\<rparr>))"
proof (induction enc t xs "(res, cur, rem)" arbitrary: res cur rem rule: compress_loop.induct)
  case (1 enc t res cur rem)
  then show ?case by simp
next
  case (2 enc t it rest res cur rem)
  show ?case
  proof (cases "cur + tokens it \<le> t")
    case True
    from 2(1)[OF True] obtain r where
      r: "compress_loop enc t rest (res @ [it], cur + tokens it, rem) = (res @ [it]) @ r"
         "\<forall>y\<in>set r. \<exists>x\<in>set rest. y = x \<or>
            (compressed y \<and> y = x\<lparr>content := content y, tokens := tokens y, compressed := True\<rparr>)"
      by blast
    have "compress_loop enc t (it # rest) (res, cur, rem) = res @ (it # r)"
      using True r(1) by simp
    moreover have "\<forall>y\<in>set (it # r). \<exists>x\<in>set (it # rest). y = x \<or>
            (compressed y \<and> y = x\<lparr>content := content y, tokens := tokens y, compressed := True\<rparr>)"
      using r(2) by auto
    ultimately show ?thesis by blast
  next
    case False
    show ?thesis
    proof (cases "rem > 100")
      case big: True
      obtain d where sd: "summarize_single enc it (rem div 2) = Some d"
        and dd: "compressed d \<and>
                 d = it\<lparr>content := content d, tokens := tokens d, compressed := True\<rparr>"
        by (simp add: summarize_single_def Let_def)
      from 2(3)[OF False big sd] obtain r where
        r: "compress_loop enc t rest (res @ [d], cur + tokens d, t - (cur + tokens d))
              = (res @ [d]) @ r"
           "\<forall>y\<in>set r. \<exists>x\<in>set rest. y = x \<or>
              (compressed y \<and> y = x\<lparr>content := content y, tokens := tokens y, compressed := True\<rparr>)"
        by blast
      have "compress_loop enc t (it # rest) (res, cur, rem) = res @ (d # r)"
        using False big r(1) by (simp add: sd)
      moreover have "\<forall>y\<in>set (d # r). \<exists>x\<in>set (it # rest). y = x \<or>
            (compressed y \<and> y = x\<lparr>content := content y, tokens := tokens y, compressed := True\<rparr>)"
        using r(2) dd by auto
      ultimately show ?thesis by blast
    next
      case small: False
      from 2(4)[OF False small] obtain r where
        r: "compress_loop enc t rest (res, cur, rem) = res @ r"
           "\<forall>y\<in>set r. \<exists>x\<in>set rest. y = x \<or>
              (compressed y \<and> y = x\<lparr>content := content y, tokens := tokens y, compressed := True\<rparr>)"
        by blast
      have "compress_loop enc t (it # rest) (res, cur, rem) = res @ r"
        using False small r(1) by simp
      moreover have "\<forall>y\<in>set r. \<exists>x\<in>set (it # rest). y = x \<or>
            (compressed y \<and> y = x\<lparr>content := content y, tokens := tokens y, compressed := True\<rparr>)"
        using r(2) by auto
      ultimately show ?thesis by blast
    qed
  qed
qed

text \<open>
  C9. An explicitly empty preserve list gives the same result as no list and as the list
  \<open>["critical", "error", "arch"]\<close>, and the items of those three categories are
  protected with the critical ones. With \<open>P\<close> the items of critical priority or of one
  of the three categories, in input order: when \<open>P\<close> sums to less than the target, the
  result is \<open>P\<close> followed by unprotected items or their derivatives; when \<open>P\<close> is not
  empty and sums to the target or more, the result is \<open>P\<close> item by item, each as it is
  or as its derivative.
\<close>

theorem empty_preserve_list_is_default:
  "smart_compress enc items target_tokens (Some []) = smart_compress enc items target_tokens None
   \<and> smart_compress enc items target_tokens (Some []) =
       smart_compress enc items target_tokens (Some [''critical'', ''error'', ''arch''])
   \<and> (let prot = (\<lambda>it. priority it = ''critical'' \<or>
                         category it \<in> {''critical'', ''error'', ''arch''});
           P = filter prot items
       in (sum_list (map tokens P) < target_tokens \<longrightarrow>
             (\<exists>rest. smart_compress enc items target_tokens (Some []) = Inr (P @ rest) \<and>
                (\<forall>y\<in>set rest. \<exists>x\<in>set items. \<not> prot x \<and>
                   (y = x \<or> (compressed y \<and>
                      y = x\<lparr>content := content y, tokens := tokens y, compressed := True\<rparr>)))))
        \<and> (target_tokens \<le> sum_list (map tokens P) \<and> P \<noteq> [] \<longrightarrow>
             (\<exists>res. smart_compress enc items target_tokens (Some []) = Inr res \<and>
                list_all2
                  (\<lambda>x r. r = x \<or> (compressed r \<and>
                      r = x\<lparr>content := content r, tokens := tokens r, compressed := True\<rparr>))
                  P res)))"
proof -
  let ?prot = "\<lambda>it. priority it = ''critical'' \<or> category it \<in> {''critical'', ''error'', ''arch''}"
  let ?P = "filter ?prot items"
  let ?C = "filter (\<lambda>it. \<not> ?prot it) items"
  have pd: "is_protected (preserve_or_default (Some [])) = ?prot"
    by (auto simp: is_protected_def preserve_or_default_def default_preserve_def)
  have main: "\<exists>rest. smart_compress enc items target_tokens (Some []) = Inr (?P @ rest) \<and>
                (\<forall>y\<in>set rest. \<exists>x\<in>set items. \<not> ?prot x \<and>
                   (y = x \<or> (compressed y \<and>
                      y = x\<lparr>content := content y, tokens := tokens y, compressed := True\<rparr>)))"
    if lt: "sum_list (map tokens ?P) < target_tokens"
  proof -
    obtain rest where
      r: "compress_loop enc target_tokens (sort_key compress_key ?C)
            (?P, sum_list (map tokens ?P), target_tokens - sum_list (map tokens ?P)) = ?P @ rest"
         "\<forall>y\<in>set rest. \<exists>x\<in>set (sort_key compress_key ?C). y = x \<or>
            (compressed y \<and> y = x\<lparr>content := content y, tokens := tokens y, compressed := True\<rparr>)"
      using compress_loop_extends by blast
    have "smart_compress enc items target_tokens (Some []) = Inr (?P @ rest)"
      using lt r(1) by (simp add: smart_compress_def Let_def pd)
    moreover have "\<forall>y\<in>set rest. \<exists>x\<in>set items. \<not> ?prot x \<and>
                   (y = x \<or> (compressed y \<and>
                      y = x\<lparr>content := content y, tokens := tokens y, compressed := True\<rparr>))"
      using r(2) by fastforce
    ultimately show ?thesis by blast
  qed
  have summ: "\<exists>res. smart_compress enc items target_tokens (Some []) = Inr res \<and>
                list_all2
                  (\<lambda>x r. r = x \<or> (compressed r \<and>
                      r = x\<lparr>content := content r, tokens := tokens r, compressed := True\<rparr>))
                  ?P res"
    if ge: "target_tokens \<le> sum_list (map tokens ?P)" and ne: "?P \<noteq> []"
    using ge ne summarize_loop_pairs[of ?P enc]
    by (simp add: smart_compress_def Let_def pd summarize_items_def)
  have eqs: "smart_compress enc items target_tokens (Some []) =
               smart_compress enc items target_tokens None"
       "smart_compress enc items target_tokens (Some []) =
          smart_compress enc items target_tokens (Some [''critical'', ''error'', ''arch''])"
    by (simp_all add: smart_compress_def preserve_or_default_def default_preserve_def)
  show ?thesis
    unfolding Let_def using eqs main summ by blast
qed

theorem empty_preserve_list_is_default_witness:
  "sum_list (map tokens
      [new_item byte_encoder ''ar'' 1 ''arch'' None (replicate 30 CHR ''a'') ''normal'']) < 40
   \<and> (\<exists>rest. smart_compress byte_encoder
        [new_item byte_encoder ''sy'' 2 ''style'' None (replicate 30 CHR ''s'') ''normal'',
         new_item byte_encoder ''ar'' 1 ''arch'' None (replicate 30 CHR ''a'') ''normal'']
        40 (Some [])
       = Inr ([new_item byte_encoder ''ar'' 1 ''arch'' None (replicate 30 CHR ''a'') ''normal'']
              @ rest))
   \<and> smart_compress byte_encoder
        [new_item byte_encoder ''sy'' 2 ''style'' None (replicate 30 CHR ''s'') ''normal'',
         new_item byte_encoder ''ar'' 1 ''arch'' None (replicate 30 CHR ''a'') ''normal'']
        40 (Some [])
       = Inr [new_item byte_encoder ''ar'' 1 ''arch'' None (replicate 30 CHR ''a'') ''normal'']"
proof -
  let ?sy = "new_item byte_encoder ''sy'' 2 ''style'' None (replicate 30 CHR ''s'') ''normal''"
  let ?ar = "new_item byte_encoder ''ar'' 1 ''arch'' None (replicate 30 CHR ''a'') ''normal''"
  let ?prot = "\<lambda>it. priority it = ''critical'' \<or> category it \<in> {''critical'', ''error'', ''arch''}"
  have P: "filter ?prot [?sy, ?ar] = [?ar]"
    by (simp add: new_item_def)
  have h: "sum_list (map tokens [?ar]) < 40"
    by (simp add: new_item_def byte_count)
  have "\<exists>rest. smart_compress byte_encoder [?sy, ?ar] 40 (Some []) = Inr ([?ar] @ rest)"
    using empty_preserve_list_is_default[of byte_encoder "[?sy, ?ar]" 40] h
    unfolding Let_def P by blast
  moreover have "smart_compress byte_encoder [?sy, ?ar] 40 (Some []) = Inr [?ar]"
    by (simp add: smart_compress_def preserve_or_default_def default_preserve_def
          is_protected_def new_item_def byte_count compress_key_def priority_order_def Let_def)
  ultimately show ?thesis using h by blast
qed

section \<open>The tokenizer\<close>




section \<open>The store\<close>

lemma first_match_bound: "first_match a xs i = Some j \<Longrightarrow> i \<le> j \<and> j < i + length xs"
  by (induction xs arbitrary: i) (fastforce split: if_splits)+

lemma first_match_none:
  "(\<forall>x\<in>set xs. ident x \<noteq> a \<and> \<not> str_in a (content x)) \<Longrightarrow> first_match a xs i = None"
  by (induction xs arbitrary: i) auto

lemma first_match_some:
  "(\<forall>x\<in>set pre. ident x \<noteq> a \<and> \<not> str_in a (content x)) \<Longrightarrow>
   ident it = a \<or> str_in a (content it) \<Longrightarrow>
   first_match a (pre @ it # post) i = Some (i + length pre)"
  by (induction pre arbitrary: i) auto

lemma aggregate_of_append:
  "aggregate_of (xs @ [x]) cat =
     (if category x = cat
      then (aggregate_of xs cat)\<lparr>cat_count := cat_count (aggregate_of xs cat) + 1,
             cat_tokens := cat_tokens (aggregate_of xs cat) + tokens x\<rparr>
      else aggregate_of xs cat)"
  by (simp add: aggregate_of_def)

lemma aggregate_of_pop:
  assumes "i < length xs"
  shows "aggregate_of (take i xs @ drop (Suc i) xs) cat =
     (if category (xs ! i) = cat
      then (aggregate_of xs cat)\<lparr>cat_count := cat_count (aggregate_of xs cat) - 1,
             cat_tokens := cat_tokens (aggregate_of xs cat) - tokens (xs ! i)\<rparr>
      else aggregate_of xs cat)"
proof -
  from assms have "xs = take i xs @ xs ! i # drop (Suc i) xs"
    by (simp add: id_take_nth_drop)
  then have "aggregate_of xs cat = aggregate_of (take i xs @ xs ! i # drop (Suc i) xs) cat"
    by simp
  then show ?thesis
    by (simp add: aggregate_of_def)
qed

lemma aggregate_of_none:
  "filter (\<lambda>m. category m = cat) ms = [] \<Longrightarrow>
   aggregate_of ms cat = \<lparr>cat_count = 0, cat_tokens = 0\<rparr>"
  by (simp add: aggregate_of_def)

lemma add_keeps:
  assumes "consistent s"
  shows "consistent (snd (add enc new_id now s c text prio))"
  unfolding consistent_def
proof
  fix cat
  obtain c' sub where sc: "split_category c = (c', sub)"
    by (cases "split_category c")
  from assms have inv: "case categories s cat of
       None \<Rightarrow> filter (\<lambda>m. category m = cat) (memories s) = []
     | Some a \<Rightarrow> a = aggregate_of (memories s) cat" for cat
    by (simp add: consistent_def)
  show "case categories (snd (add enc new_id now s c text prio)) cat of
       None \<Rightarrow> filter (\<lambda>m. category m = cat)
                 (memories (snd (add enc new_id now s c text prio))) = []
     | Some a \<Rightarrow> a = aggregate_of (memories (snd (add enc new_id now s c text prio))) cat"
  proof (cases "cat = c'")
    case True
    then show ?thesis using inv[of c'] sc
      by (cases "categories s c'")
         (simp_all add: add_def new_item_def Let_def aggregate_of_append aggregate_of_none)
  next
    case False
    then show ?thesis using inv[of cat] sc
      by (simp add: add_def new_item_def Let_def aggregate_of_append split: option.splits)
  qed
qed

lemma remove_keeps:
  assumes "consistent s"
  shows "consistent (snd (remove s x))"
proof (cases "first_match x (memories s) 0")
  case None
  then show ?thesis using assms by (simp add: remove_def)
next
  case (Some i)
  then have i: "i < length (memories s)"
    using first_match_bound by fastforce
  from assms have inv: "case categories s cat of
       None \<Rightarrow> filter (\<lambda>m. category m = cat) (memories s) = []
     | Some a \<Rightarrow> a = aggregate_of (memories s) cat" for cat
    by (simp add: consistent_def)
  have ft: "filter P (memories s) = [] \<Longrightarrow> filter P (take i (memories s)) = []" for P
    by (auto simp: filter_empty_conv dest: in_set_takeD)
  have fd: "filter P (memories s) = [] \<Longrightarrow> filter P (drop (Suc i) (memories s)) = []" for P
    by (auto simp: filter_empty_conv dest: in_set_dropD)
  show ?thesis
    unfolding consistent_def
  proof
    fix cat
    show "case categories (snd (remove s x)) cat of
       None \<Rightarrow> filter (\<lambda>m. category m = cat) (memories (snd (remove s x))) = []
     | Some a \<Rightarrow> a = aggregate_of (memories (snd (remove s x))) cat"
      using inv[of cat] inv[of "category (memories s ! i)"] Some i
      by (auto simp: remove_def Let_def aggregate_of_pop ft fd split: option.splits)
  qed
qed

lemma exec_keeps: "consistent s \<Longrightarrow> consistent (exec enc s c)"
  by (cases c) (simp_all add: add_keeps remove_keeps)

lemma foldl_keeps: "consistent s \<Longrightarrow> consistent (foldl (exec enc) s cs)"
  by (induction cs arbitrary: s) (simp_all add: exec_keeps)

text \<open>
  C4. After any sequence of \<open>add\<close> and \<open>remove\<close> from the empty store, every category
  that has an aggregate has, as its count, the number of stored items of that category
  and, as its tokens, the sum of their token counts.
\<close>

theorem aggregates_match_items:
  "categories (run enc cmds) cat = Some a \<Longrightarrow>
   cat_count a = int (length (filter (\<lambda>m. category m = cat) (memories (run enc cmds)))) \<and>
   cat_tokens a =
     sum_list (map tokens (filter (\<lambda>m. category m = cat) (memories (run enc cmds))))"
proof -
  assume h: "categories (run enc cmds) cat = Some a"
  have "consistent empty_store"
    by (simp add: empty_store_def consistent_def)
  then have "consistent (run enc cmds)"
    unfolding run_def by (rule foldl_keeps)
  then have "a = aggregate_of (memories (run enc cmds)) cat"
    using h by (auto simp: consistent_def split: option.splits dest: spec[of _ cat])
  then show ?thesis by (simp add: aggregate_of_def)
qed


theorem aggregates_match_items_witness:
  "categories (run byte_encoder
       [Add ''id1'' 1 ''arch:db'' ''uses postgres'' ''normal'',
        Add ''id2'' 2 ''arch'' ''API'' ''critical'',
        Remove ''postgres'']) ''arch'' = Some \<lparr>cat_count = 1, cat_tokens = 3\<rparr>
   \<and> cat_count \<lparr>cat_count = 1, cat_tokens = 3\<rparr> =
       int (length (filter (\<lambda>m. category m = ''arch'') (memories (run byte_encoder
       [Add ''id1'' 1 ''arch:db'' ''uses postgres'' ''normal'',
        Add ''id2'' 2 ''arch'' ''API'' ''critical'',
        Remove ''postgres'']))))
   \<and> cat_tokens \<lparr>cat_count = 1, cat_tokens = 3\<rparr> =
       sum_list (map tokens (filter (\<lambda>m. category m = ''arch'') (memories (run byte_encoder
       [Add ''id1'' 1 ''arch:db'' ''uses postgres'' ''normal'',
        Add ''id2'' 2 ''arch'' ''API'' ''critical'',
        Remove ''postgres'']))))"
proof -
  let ?cmds = "[Add ''id1'' 1 ''arch:db'' ''uses postgres'' ''normal'',
        Add ''id2'' 2 ''arch'' ''API'' ''critical'',
        Remove ''postgres'']"
  have h: "categories (run byte_encoder ?cmds) ''arch'' = Some \<lparr>cat_count = 1, cat_tokens = 3\<rparr>"
    by (simp add: run_def empty_store_def add_def new_item_def split_category_def remove_def
          byte_count str_in_def sublist_code Let_def)
  from aggregates_match_items[OF h] h show ?thesis by simp
qed

text \<open>
  C7. When no stored item has the argument as its id or inside its content, \<open>remove\<close>
  returns \<open>None\<close> and the store as it was. Otherwise it returns the first such item in
  storage order, deletes it from the list, and takes one off the count and the item's
  tokens off the tokens of the aggregate of the item's category.
\<close>

theorem remove_first_match_or_none:
  "((\<forall>x\<in>set (memories s). ident x \<noteq> a \<and> \<not> str_in a (content x)) \<longrightarrow>
      remove s a = (None, s))
   \<and> (memories s = pre @ it # post \<and>
      (\<forall>x\<in>set pre. ident x \<noteq> a \<and> \<not> str_in a (content x)) \<and>
      (ident it = a \<or> str_in a (content it)) \<longrightarrow>
      remove s a =
        (Some it,
         s\<lparr>memories := pre @ post,
           categories :=
             (case categories s (category it) of
                None \<Rightarrow> categories s
              | Some g \<Rightarrow> (categories s)(category it \<mapsto>
                  g\<lparr>cat_count := cat_count g - 1,
                    cat_tokens := cat_tokens g - tokens it\<rparr>))\<rparr>))"
  by (auto simp: remove_def Let_def first_match_none first_match_some[where i=0, simplified]
           split: option.splits)

theorem remove_first_match_or_none_witness:
  "ident (new_item byte_encoder ''id1'' 1 ''arch'' None ''API'' ''normal'') \<noteq> ''tabs''
   \<and> \<not> str_in ''tabs'' (content (new_item byte_encoder ''id1'' 1 ''arch'' None ''API'' ''normal''))
   \<and> str_in ''tabs'' (content (new_item byte_encoder ''id2'' 2 ''style'' None ''use tabs'' ''low''))
   \<and> remove \<lparr>memories = [new_item byte_encoder ''id1'' 1 ''arch'' None ''API'' ''normal''],
               categories = Map.empty\<rparr> ''tabs''
       = (None, \<lparr>memories = [new_item byte_encoder ''id1'' 1 ''arch'' None ''API'' ''normal''],
                 categories = Map.empty\<rparr>)
   \<and> remove \<lparr>memories = [new_item byte_encoder ''id1'' 1 ''arch'' None ''API'' ''normal'',
                          new_item byte_encoder ''id2'' 2 ''style'' None ''use tabs'' ''low'',
                          new_item byte_encoder ''id3'' 3 ''style'' None ''no tabs'' ''low''],
               categories = [''style'' \<mapsto> \<lparr>cat_count = 2, cat_tokens = 15\<rparr>]\<rparr> ''tabs''
       = (Some (new_item byte_encoder ''id2'' 2 ''style'' None ''use tabs'' ''low''),
          \<lparr>memories = [new_item byte_encoder ''id1'' 1 ''arch'' None ''API'' ''normal'',
                       new_item byte_encoder ''id3'' 3 ''style'' None ''no tabs'' ''low''],
            categories = [''style'' \<mapsto> \<lparr>cat_count = 1, cat_tokens = 7\<rparr>]\<rparr>)"
proof -
  let ?a = "new_item byte_encoder ''id1'' 1 ''arch'' None ''API'' ''normal''"
  let ?b = "new_item byte_encoder ''id2'' 2 ''style'' None ''use tabs'' ''low''"
  let ?c = "new_item byte_encoder ''id3'' 3 ''style'' None ''no tabs'' ''low''"
  let ?s1 = "\<lparr>memories = [?a], categories = Map.empty\<rparr>"
  let ?s2 = "\<lparr>memories = [?a, ?b, ?c],
              categories = [''style'' \<mapsto> \<lparr>cat_count = 2, cat_tokens = 15\<rparr>]\<rparr>"
  have h1: "\<forall>x\<in>set (memories ?s1). ident x \<noteq> ''tabs'' \<and> \<not> str_in ''tabs'' (content x)"
    by (simp add: new_item_def str_in_def sublist_code)
  have r1: "remove ?s1 ''tabs'' = (None, ?s1)"
    using remove_first_match_or_none[of ?s1 "''tabs''"] h1 by blast
  have h2: "memories ?s2 = [?a] @ ?b # [?c] \<and>
      (\<forall>x\<in>set [?a]. ident x \<noteq> ''tabs'' \<and> \<not> str_in ''tabs'' (content x)) \<and>
      (ident ?b = ''tabs'' \<or> str_in ''tabs'' (content ?b))"
    by (simp add: new_item_def str_in_def sublist_code)
  have "remove ?s2 ''tabs'' =
        (Some ?b,
         ?s2\<lparr>memories := [?a] @ [?c],
           categories :=
             (case categories ?s2 (category ?b) of
                None \<Rightarrow> categories ?s2
              | Some g \<Rightarrow> (categories ?s2)(category ?b \<mapsto>
                  g\<lparr>cat_count := cat_count g - 1,
                    cat_tokens := cat_tokens g - tokens ?b\<rparr>))\<rparr>)"
    using remove_first_match_or_none[of ?s2 "''tabs''" "[?a]" ?b "[?c]"] h2 by blast
  then have r2: "remove ?s2 ''tabs'' = (Some ?b, \<lparr>memories = [?a, ?c],
            categories = [''style'' \<mapsto> \<lparr>cat_count = 1, cat_tokens = 7\<rparr>]\<rparr>)"
    by (simp add: new_item_def byte_count)
  have h3: "ident ?a \<noteq> ''tabs''" "\<not> str_in ''tabs'' (content ?a)"
    "str_in ''tabs'' (content ?b)"
    by (simp_all add: new_item_def str_in_def sublist_code)
  from h3 r1 r2 show ?thesis by blast
qed

text \<open>
  C10. On a store with at least one item, \<open>remove\<close> of the empty string returns the
  first stored item and leaves the rest of the list.
\<close>

theorem remove_empty_string_takes_first:
  "memories s \<noteq> [] \<Longrightarrow>
   fst (remove s []) = Some (hd (memories s)) \<and>
   memories (snd (remove s [])) = tl (memories s)"
  by (cases "memories s") (simp_all add: remove_def str_in_def Let_def)


theorem remove_empty_string_takes_first_witness:
  "memories \<lparr>memories = [new_item byte_encoder ''id1'' 1 ''arch'' None ''API'' ''normal'',
                        new_item byte_encoder ''id2'' 2 ''style'' None ''tabs'' ''low''],
             categories = Map.empty\<rparr> \<noteq> []
   \<and> fst (remove \<lparr>memories = [new_item byte_encoder ''id1'' 1 ''arch'' None ''API'' ''normal'',
                             new_item byte_encoder ''id2'' 2 ''style'' None ''tabs'' ''low''],
                  categories = Map.empty\<rparr> [])
       = Some (new_item byte_encoder ''id1'' 1 ''arch'' None ''API'' ''normal'')
   \<and> memories (snd (remove
         \<lparr>memories = [new_item byte_encoder ''id1'' 1 ''arch'' None ''API'' ''normal'',
                      new_item byte_encoder ''id2'' 2 ''style'' None ''tabs'' ''low''],
           categories = Map.empty\<rparr> []))
       = [new_item byte_encoder ''id2'' 2 ''style'' None ''tabs'' ''low'']"
  using remove_empty_string_takes_first
    [of "\<lparr>memories = [new_item byte_encoder ''id1'' 1 ''arch'' None ''API'' ''normal'',
                      new_item byte_encoder ''id2'' 2 ''style'' None ''tabs'' ''low''],
           categories = Map.empty\<rparr>"]
  by simp

section \<open>The relevance scorer\<close>

lemma scored_from_filter:
  "scored_from bi clock q i ms = filter (\<lambda>x. 0 < fst x) (all_scored_from bi clock q i ms)"
  by (induction ms arbitrary: i) simp_all

lemma all_scored_from_items: "map snd (all_scored_from bi clock q i ms) = ms"
  by (induction ms arbitrary: i) simp_all

lemma ranked_sorted: "sorted_wrt (\<lambda>x y. fst y \<le> fst x) (ranked bi clock s q)"
proof -
  have "sorted (map (\<lambda>x. - fst x) (ranked bi clock s q))"
    unfolding ranked_def by (rule sorted_sort_key)
  then show ?thesis by (simp add: sorted_map)
qed

lemma ranked_stable:
  "filter (\<lambda>x. fst x = v) (ranked bi clock s q) =
     (if 0 < v then filter (\<lambda>x. fst x = v) (all_scored_from bi clock q 0 (memories s)) else [])"
proof -
  have "filter (\<lambda>x. fst x = v) (ranked bi clock s q) =
          filter (\<lambda>x. - fst x = - v) (ranked bi clock s q)"
    by simp
  also have "\<dots> = filter (\<lambda>x. - fst x = - v) (scored_from bi clock q 0 (memories s))"
    unfolding ranked_def by (rule sort_key_stable)
  also have "\<dots> =
      filter (\<lambda>x. fst x = v \<and> 0 < fst x) (all_scored_from bi clock q 0 (memories s))"
    by (simp add: scored_from_filter conj_commute)
  also have "\<dots> =
      (if 0 < v then filter (\<lambda>x. fst x = v) (all_scored_from bi clock q 0 (memories s)) else [])"
    by (auto intro: filter_cong simp: filter_empty_conv)
  finally show ?thesis .
qed

text \<open>
  C5. The ranking \<open>get_relevant\<close> sorts is in descending order of score. For every score
  value, the ranked entries of that score are, in the same order, the stored items of
  that score when the value is positive, and there are none when it is 0 or less. For
  \<open>max_items \<ge> 0\<close> the result is the items of the first \<open>max_items\<close> entries of the
  ranking, so at most \<open>max_items\<close> items.
\<close>

theorem get_relevant_ranking:
  "sorted_wrt (\<lambda>x y. fst y \<le> fst x) (ranked bi clock s q)
   \<and> (\<forall>v. filter (\<lambda>x. fst x = v) (ranked bi clock s q) =
         (if 0 < v then filter (\<lambda>x. fst x = v) (all_scored_from bi clock q 0 (memories s))
          else []))
   \<and> (0 \<le> max_items \<longrightarrow>
        get_relevant bi clock s q max_items =
          map snd (take (nat max_items) (ranked bi clock s q))
        \<and> int (length (get_relevant bi clock s q max_items)) \<le> max_items)"
proof -
  have "int (length (get_relevant bi clock s q max_items)) \<le> max_items" if "0 \<le> max_items"
    using that by (simp add: get_relevant_def slice_to_def)
  then show ?thesis
    using ranked_sorted ranked_stable
    by (simp add: get_relevant_def slice_to_def)
qed

theorem get_relevant_ranking_witness:
  "0 \<le> (20::int)
   \<and> get_relevant latin1_builtins (\<lambda>i. 1000000)
        \<lparr>memories = [new_item byte_encoder ''id1'' 1000 ''api'' None ''runs on port 8002'' ''normal'',
                     new_item byte_encoder ''id2'' 2000 ''style'' None ''use tabs'' ''normal''],
          categories = Map.empty\<rparr> ''port'' 20
       = [new_item byte_encoder ''id1'' 1000 ''api'' None ''runs on port 8002'' ''normal'']
   \<and> int (length (get_relevant latin1_builtins (\<lambda>i. 1000000)
        \<lparr>memories = [new_item byte_encoder ''id1'' 1000 ''api'' None ''runs on port 8002'' ''normal'',
                     new_item byte_encoder ''id2'' 2000 ''style'' None ''use tabs'' ''normal''],
          categories = Map.empty\<rparr> ''port'' 20)) \<le> 20"
proof -
  let ?s = "\<lparr>memories = [new_item byte_encoder ''id1'' 1000 ''api'' None ''runs on port 8002'' ''normal'',
                     new_item byte_encoder ''id2'' 2000 ''style'' None ''use tabs'' ''normal''],
          categories = Map.empty\<rparr>"
  have h0: "0 \<le> (20::int)" by simp
  have ev: "get_relevant latin1_builtins (\<lambda>i. 1000000) ?s ''port'' 20
       = [new_item byte_encoder ''id1'' 1000 ''api'' None ''runs on port 8002'' ''normal'']"
    by code_simp
  have "int (length (get_relevant latin1_builtins (\<lambda>i. 1000000) ?s ''port'' 20)) \<le> 20"
    using get_relevant_ranking[of latin1_builtins "\<lambda>i. 1000000" ?s "''port''" 20] h0 by blast
  with h0 ev show ?thesis by blast
qed

subsection \<open>Inserting an occurrence of the query\<close>

lemma split_from_tail:
  "set (split_from [] (dropWhile (\<lambda>c. \<not> isspace c) b)) \<subseteq> set (split_from w b)"
  by (induction b arbitrary: w) auto

lemma split_from_head:
  "set (split_from w b) \<subseteq>
     insert (w @ takeWhile (\<lambda>c. \<not> isspace c) b)
       (set (split_from [] (dropWhile (\<lambda>c. \<not> isspace c) b)))"
proof (induction b arbitrary: w)
  case Nil
  then show ?case by simp
next
  case (Cons c b)
  show ?case
  proof (cases "isspace c")
    case True
    then show ?thesis by auto
  next
    case False
    then show ?thesis using Cons.IH[of "w @ [c]"] by simp
  qed
qed

lemma split_from_insert_tail:
  "set (split_from [] (dropWhile (\<lambda>c. \<not> isspace c) b)) \<subseteq> set (split_from w (q @ b))"
proof (induction q arbitrary: w)
  case Nil
  then show ?case using split_from_tail by simp
next
  case (Cons c q)
  then show ?case by auto
qed

text \<open>Text inserted at one place loses at most one word of the split.\<close>

lemma split_from_insert:
  "\<exists>w0. set (split_from w (a @ b)) \<subseteq> insert w0 (set (split_from w (a @ q @ b)))"
proof (induction a arbitrary: w)
  case Nil
  have "set (split_from w b) \<subseteq>
     insert (w @ takeWhile (\<lambda>c. \<not> isspace c) b) (set (split_from w (q @ b)))"
    using split_from_head[of w b] split_from_insert_tail[of b w q] by blast
  then show ?case by auto
next
  case (Cons c a)
  show ?case
  proof (cases "isspace c")
    case True
    obtain w0 where
      "set (split_from [] (a @ b)) \<subseteq> insert w0 (set (split_from [] (a @ q @ b)))"
      using Cons.IH by blast
    then show ?thesis using True by auto
  next
    case False
    then show ?thesis using Cons.IH[of "w @ [c]"] by simp
  qed
qed

lemma overlap_insert:
  "card (Q \<inter> set (str_split (a @ b))) \<le> card (Q \<inter> set (str_split (a @ q @ b))) + 1"
proof -
  obtain w0 where "set (str_split (a @ b)) \<subseteq> insert w0 (set (str_split (a @ q @ b)))"
    unfolding str_split_def using split_from_insert by blast
  then have "Q \<inter> set (str_split (a @ b)) \<subseteq> insert w0 (Q \<inter> set (str_split (a @ q @ b)))"
    by blast
  then have "card (Q \<inter> set (str_split (a @ b)))
               \<le> card (insert w0 (Q \<inter> set (str_split (a @ q @ b))))"
    by (intro card_mono) auto
  also have "\<dots> \<le> card (Q \<inter> set (str_split (a @ q @ b))) + 1"
    by (simp add: card_insert_if)
  finally show ?thesis .
qed

text \<open>
  C6. Take two items that differ in their content only, such that the lower-cased
  content of the second is the lower-cased content of the first with the lower-cased
  query inserted at some position, and the lower-cased content of the first does not
  contain the lower-cased query. Then the score of the second is at least the score of
  the first, whatever the clock readings at which the two are scored.
\<close>

theorem score_after_inserted_occurrence:
  assumes "str_lower bi (content it) = a @ b"
    and "str_lower bi text' = a @ str_lower bi query @ b"
    and "\<not> str_in (str_lower bi query) (str_lower bi (content it))"
  shows "score bi now query it \<le> score bi now' query (it\<lparr>content := text'\<rparr>)"
proof -
  let ?Q = "set (str_split (str_lower bi query))"
  have new: "str_in (str_lower bi query) (str_lower bi text')"
    using assms(2) by (simp add: str_in_def)
  have "card (?Q \<inter> set (str_split (a @ b)))
          \<le> card (?Q \<inter> set (str_split (a @ str_lower bi query @ b))) + 1"
    by (rule overlap_insert)
  then have ov: "int (card (?Q \<inter> set (str_split (str_lower bi (content it)))))
          \<le> int (card (?Q \<inter> set (str_split (str_lower bi text')))) + 1"
    using assms(1,2) by simp
  show ?thesis
    using new ov assms(3) by (simp add: score_def Let_def)
qed

theorem score_after_inserted_occurrence_witness:
  "str_lower latin1_builtins
      (content (new_item byte_encoder ''id1'' 1000 ''api'' None ''Runs on 8002'' ''normal''))
     = ''runs on '' @ ''8002''
   \<and> str_lower latin1_builtins ''Runs on PORT 8002''
     = ''runs on '' @ str_lower latin1_builtins ''Port '' @ ''8002''
   \<and> \<not> str_in (str_lower latin1_builtins ''Port '')
         (str_lower latin1_builtins
            (content (new_item byte_encoder ''id1'' 1000 ''api'' None ''Runs on 8002'' ''normal'')))
   \<and> score latin1_builtins 2000 ''Port ''
        (new_item byte_encoder ''id1'' 1000 ''api'' None ''Runs on 8002'' ''normal'')
      \<le> score latin1_builtins 900000 ''Port ''
          ((new_item byte_encoder ''id1'' 1000 ''api'' None ''Runs on 8002'' ''normal'')
             \<lparr>content := ''Runs on PORT 8002''\<rparr>)"
proof -
  let ?x = "new_item byte_encoder ''id1'' 1000 ''api'' None ''Runs on 8002'' ''normal''"
  have h1: "str_lower latin1_builtins (content ?x) = ''runs on '' @ ''8002''"
    by code_simp
  have h2: "str_lower latin1_builtins ''Runs on PORT 8002''
     = ''runs on '' @ str_lower latin1_builtins ''Port '' @ ''8002''"
    by code_simp
  have h3: "\<not> str_in (str_lower latin1_builtins ''Port '') (str_lower latin1_builtins (content ?x))"
    by code_simp
  from score_after_inserted_occurrence[OF h1 h2 h3, of 2000 900000] h1 h2 h3
  show ?thesis by blast
qed

text \<open>
  C6, as stated, fails where the content already contains the query: for the query
  \<open>ab\<close> the content \<open>ab\<close> scores 10 (one shared word, the substring, recency), and
  with a second occurrence, \<open>abab\<close>, the shared word is gone and the score is 8.
\<close>

theorem score_drops_on_repeated_occurrence:
  "str_in (str_lower latin1_builtins ''ab'') (str_lower latin1_builtins ''abab'')
   \<and> score latin1_builtins 0 ''ab''
        ((new_item byte_encoder ''i1'' 0 ''style'' None ''ab'' ''normal'')\<lparr>content := ''abab''\<rparr>)
     < score latin1_builtins 0 ''ab''
        (new_item byte_encoder ''i1'' 0 ''style'' None ''ab'' ''normal'')"
  by code_simp

end
